theory Spec2Isabelle
  imports Main "HOL-Library.Code_Target_Nat"
begin

section \<open>Errors\<close>

text \<open>
  The Python exceptions the two tables can raise, as values. \<open>KeyError\<close> carries the key it
  was raised with and \<open>FullError\<close> its message. \<open>RecursionError\<close> is what a recursion
  that exceeds its depth budget ends with. \<open>OutOfFuel\<close> is no exception: it is the
  result of a loop or of a nest of calls that was given too few steps to finish.
\<close>

datatype error =
    KeyError string
  | FullError string
  | IndexError
  | ZeroDivisionError
  | UnboundLocalError
  | TypeError
  | AttributeError
  | ValueError
  | RecursionError
  | OutOfFuel

definition ord :: "char \<Rightarrow> nat" where
  "ord c = of_char c"

section \<open>The trie table (infinite\_hash\_table.py)\<close>

text \<open>
  An \<open>InfiniteHashTable\<close> object has the fields \<open>array\<close>, \<open>count\<close> and \<open>level\<close>.
  A slot of \<open>array\<close> is \<open>None\<close> or a tuple whose second component is a value or another
  \<open>InfiniteHashTable\<close>. The field \<open>location_lst\<close> of the root is passed explicitly
  through \<open>get_item_aux\<close>; the fields \<open>str\<close> and \<open>sorted_lst\<close> are never read.
  Every child table is referenced from exactly one slot, so the object graph is a tree and
  in-place mutation is the replacement of a subtree.
\<close>

datatype 'v iht =
  InfiniteHashTable (array: "(string \<times> 'v payload) option list") (count: int) (level: nat)
and 'v payload = Val 'v | Tab "'v iht"

definition TABLE_SIZE :: nat where
  "TABLE_SIZE = 27"

text \<open>\<open>InfiniteHashTable(level)\<close>: an array of \<open>TABLE_SIZE\<close> empty slots.\<close>

definition new_table :: "nat \<Rightarrow> 'v iht" where
  "new_table lvl = InfiniteHashTable (replicate TABLE_SIZE None) 0 lvl"

text \<open>\<open>hash\<close>, lines 35-38.\<close>

definition hash :: "'v iht \<Rightarrow> string \<Rightarrow> nat" where
  "hash self key =
     (if level self < length key then ord (key ! level self) mod (TABLE_SIZE - 1)
      else TABLE_SIZE - 1)"

lemma size_slot:
  assumes "p < length arr" and "arr ! p = Some (k, Tab t)"
  shows "size t < size (InfiniteHashTable arr c l)"
proof -
  from assms have "Some (k, Tab t) \<in> set arr"
    by (metis nth_mem)
  then have "size_option (size_prod (\<lambda>_. 0) size) (Some (k, Tab t))
      \<le> size_list (size_option (size_prod (\<lambda>_. 0) size)) arr"
    by (rule size_list_estimation') simp
  then show ?thesis by simp
qed

lemma size_child:
  assumes "p < length (array t)" and "array t ! p = Some (k, Tab c)"
  shows "size c < size t"
  using assms by (cases t) (auto dest: size_slot simp del: iht.size)

text \<open>
  \<open>get_item_aux\<close>, lines 61-101. The first argument is the content of
  \<open>self.location_lst\<close> on entry; the result pairs the value found with the content of
  \<open>self.location_lst\<close> on return. A read of \<open>array\<close> outside its length raises
  \<open>IndexError\<close>.
\<close>

function get_item_aux ::
  "nat list \<Rightarrow> 'v iht \<Rightarrow> string \<Rightarrow> nat \<Rightarrow> error + ('v \<times> nat list)" where
  "get_item_aux loc hash_table key lvl =
    (let position = hash hash_table key in
     if length (array hash_table) \<le> position then Inl IndexError
     else case array hash_table ! position of
       None \<Rightarrow> Inl (KeyError key)
     | Some (k, x) \<Rightarrow>
         if k = key then
           (case x of
              Tab child \<Rightarrow> get_item_aux (loc @ [position]) child key (lvl + 1)
            | Val v \<Rightarrow> Inr (v, loc @ [position]))
         else if k = take (lvl + 1) key then
           (case x of
              Tab child \<Rightarrow> get_item_aux (loc @ [position]) child key (lvl + 1)
            | Val v \<Rightarrow> Inl (KeyError key))
         else Inl (KeyError key))"
  by pat_completeness auto
termination
  by (relation "measure (\<lambda>(loc, t, key, lvl). size t)") (auto simp: not_le dest: size_child)

text \<open>\<open>__getitem__\<close>, line 59.\<close>

definition iht_getitem :: "'v iht \<Rightarrow> string \<Rightarrow> error + 'v" where
  "iht_getitem self key =
     (case get_item_aux [] self key 0 of Inl e \<Rightarrow> Inl e | Inr (v, loc) \<Rightarrow> Inr v)"

text \<open>\<open>get_location\<close>, lines 260-263: the list is reset, then filled by the descent.\<close>

definition get_location :: "'v iht \<Rightarrow> string \<Rightarrow> error + nat list" where
  "get_location self key =
     (case get_item_aux [] self key 0 of Inl e \<Rightarrow> Inl e | Inr (v, loc) \<Rightarrow> Inr loc)"

text \<open>\<open>__contains__\<close>, lines 271-276: only \<open>KeyError\<close> is caught.\<close>

definition iht_contains :: "'v iht \<Rightarrow> string \<Rightarrow> error + bool" where
  "iht_contains self key =
     (case iht_getitem self key of
        Inl (KeyError k) \<Rightarrow> Inr False
      | Inl e \<Rightarrow> Inl e
      | Inr v \<Rightarrow> Inr True)"

text \<open>
  \<open>set_item_aux\<close>, lines 137-157. The recursion of the third branch need not end (two
  different keys whose characters agree modulo 26 from some level on are pushed down
  for ever), so the first argument bounds the recursion depth, and a descent that needs
  more ends with \<open>RecursionError\<close>.
\<close>

fun set_item_aux :: "nat \<Rightarrow> 'v iht \<Rightarrow> string \<Rightarrow> 'v \<Rightarrow> nat \<Rightarrow> error + 'v iht" where
  "set_item_aux 0 hash_table key val lvl = Inl RecursionError"
| "set_item_aux (Suc depth) hash_table key val lvl =
    (let position = hash hash_table key in
     if length (array hash_table) \<le> position then Inl IndexError
     else case array hash_table ! position of
       None \<Rightarrow>
         Inr (InfiniteHashTable ((array hash_table)[position := Some (key, Val val)])
                (count hash_table + 1) (level hash_table))
     | Some (k, x) \<Rightarrow>
         if k = key then
           Inr (InfiniteHashTable ((array hash_table)[position := Some (key, Val val)])
                  (count hash_table) (level hash_table))
         else
           (case x of
              Val v0 \<Rightarrow>
                (case set_item_aux depth (new_table (lvl + 1)) k v0 (lvl + 1) of
                   Inl e \<Rightarrow> Inl e
                 | Inr child1 \<Rightarrow>
                     (case set_item_aux depth child1 key val (lvl + 1) of
                        Inl e \<Rightarrow> Inl e
                      | Inr child2 \<Rightarrow>
                          Inr (InfiniteHashTable
                                 ((array hash_table)[position := Some (take (lvl + 1) k, Tab child2)])
                                 (count hash_table + 1) (level hash_table))))
            | Tab child \<Rightarrow>
                (case set_item_aux depth child key val (lvl + 1) of
                   Inl e \<Rightarrow> Inl e
                 | Inr child' \<Rightarrow>
                     Inr (InfiniteHashTable ((array hash_table)[position := Some (k, Tab child')])
                            (count hash_table + 1) (level hash_table)))))"

text \<open>\<open>__setitem__\<close>, line 119.\<close>

definition iht_setitem :: "nat \<Rightarrow> 'v iht \<Rightarrow> string \<Rightarrow> 'v \<Rightarrow> error + 'v iht" where
  "iht_setitem depth self key val = set_item_aux depth self key val 0"

text \<open>
  \<open>delete_item_aux\<close>, lines 197-226. The flag \<open>is_self\<close> is the test
  \<open>hash_table == self\<close> (object identity: true in the outermost call only). The result
  is the table after the call and the value returned (\<open>None\<close> or the only item left).
  \<open>len\<close> of a negative count raises \<open>ValueError\<close>; the loop that looks for the only
  item leaves its variable unbound when no slot is occupied.
\<close>

function delete_item_aux ::
  "bool \<Rightarrow> 'v iht \<Rightarrow> nat list \<Rightarrow> nat \<Rightarrow> int \<Rightarrow> nat
     \<Rightarrow> error + ('v iht \<times> (string \<times> 'v payload) option)" where
  "delete_item_aux is_self hash_table location_list locate_index path_distance list_len =
    (if length location_list \<le> locate_index then Inl IndexError
     else
       let table_index = location_list ! locate_index in
       if path_distance = 0 \<and> int locate_index = int list_len - 1 then
         (if length (array hash_table) \<le> table_index then Inl IndexError
          else
            let arr = (array hash_table)[table_index := None];
                cnt = count hash_table - 1;
                ht = InfiniteHashTable arr cnt (level hash_table)
            in if cnt < 0 then Inl ValueError
               else if cnt \<le> 1 then
                 (if is_self then Inr (ht, None)
                  else case find (\<lambda>x. x \<noteq> None) arr of
                         None \<Rightarrow> Inl UnboundLocalError
                       | Some only_item \<Rightarrow> Inr (ht, only_item))
               else Inr (ht, None))
       else
         (if length (array hash_table) \<le> table_index then Inl IndexError
          else case array hash_table ! table_index of
            None \<Rightarrow> Inl TypeError
          | Some (k, Val v) \<Rightarrow>
              (if length location_list \<le> locate_index + 1 then Inl IndexError
               else Inl AttributeError)
          | Some (k, Tab following_hash_table) \<Rightarrow>
              (case delete_item_aux False following_hash_table location_list (locate_index + 1)
                      (path_distance - 1) list_len of
                 Inl e \<Rightarrow> Inl e
               | Inr (child, only_item_from_table) \<Rightarrow>
                   let arr = (array hash_table)[table_index := Some (k, Tab child)];
                       cnt = count hash_table - 1
                   in case only_item_from_table of
                        None \<Rightarrow> Inr (InfiniteHashTable arr cnt (level hash_table), None)
                      | Some item \<Rightarrow>
                          if cnt < 0 then Inl ValueError
                          else if cnt > 1 \<or> is_self then
                            Inr (InfiniteHashTable (arr[table_index := Some item]) cnt
                                   (level hash_table), None)
                          else
                            Inr (InfiniteHashTable (arr[table_index := None]) cnt
                                   (level hash_table), Some item))))"
  by pat_completeness auto
termination
  by (relation "measure (\<lambda>(s, t, loc, i, d, n). length loc - i)") auto

text \<open>\<open>__delitem__\<close>, lines 177-179.\<close>

definition iht_delitem :: "'v iht \<Rightarrow> string \<Rightarrow> error + 'v iht" where
  "iht_delitem self key =
    (case get_location self key of
       Inl e \<Rightarrow> Inl e
     | Inr location_list \<Rightarrow>
         (case delete_item_aux True self location_list 0 (int (length location_list) - 1)
                 (length location_list) of
            Inl e \<Rightarrow> Inl e
          | Inr (t, r) \<Rightarrow> Inr t))"

text \<open>
  \<open>sort_keys_aux\<close>, lines 311-326, with the list \<open>sorted_list\<close> passed in and returned.
  \<open>sort_keys_loop\<close> is the \<open>for i in range(97, 123)\<close> loop over the codes still to
  visit; \<open>array[-1]\<close> is the last slot.
\<close>

function sort_keys_aux :: "'v iht \<Rightarrow> string list \<Rightarrow> error + string list"
  and sort_keys_loop :: "'v iht \<Rightarrow> nat list \<Rightarrow> string list \<Rightarrow> error + string list" where
  "sort_keys_aux self sorted_list =
    (if array self = [] then Inl IndexError
     else sort_keys_loop self [97..<123]
            (case last (array self) of
               None \<Rightarrow> sorted_list
             | Some (k, x) \<Rightarrow> if level self \<noteq> 0 then sorted_list @ [k] else sorted_list))"
| "sort_keys_loop self [] sorted_list = Inr sorted_list"
| "sort_keys_loop self (i # rest) sorted_list =
    (let position = i mod (TABLE_SIZE - 1) in
     if length (array self) \<le> position then Inl IndexError
     else case array self ! position of
       None \<Rightarrow> sort_keys_loop self rest sorted_list
     | Some (k, Tab child) \<Rightarrow>
         (case sort_keys_aux child sorted_list of
            Inl e \<Rightarrow> Inl e
          | Inr sorted_list' \<Rightarrow> sort_keys_loop self rest sorted_list')
     | Some (k, Val v) \<Rightarrow> sort_keys_loop self rest (sorted_list @ [k]))"
  by pat_completeness auto
termination
  by (relation "inv_image (less_than <*lex*> less_than)
        (\<lambda>x. case x of Inl (t, acc) \<Rightarrow> (size t, 27) | Inr (t, is, acc) \<Rightarrow> (size t, length is))")
     (auto simp: wf_lex_prod not_le dest: size_child)

text \<open>
  \<open>sort_keys\<close>, line 293, calls \<open>sort_keys_aux\<close> without an argument, so the list is the
  default-argument object of \<open>sort_keys_aux\<close>. Python creates that object once, when the
  function is defined, and every call appends to it and returns it. The second argument
  is the content of that object before the call; the result is its content after the
  call, which is also what the caller receives.
\<close>

definition sort_keys :: "'v iht \<Rightarrow> string list \<Rightarrow> error + string list" where
  "sort_keys self default_list = sort_keys_aux self default_list"

text \<open>A sequence of \<open>table[key] = value\<close> statements, stopping at the first exception.\<close>

fun iht_set_all :: "nat \<Rightarrow> 'v iht \<Rightarrow> (string \<times> 'v) list \<Rightarrow> error + 'v iht" where
  "iht_set_all depth self [] = Inr self"
| "iht_set_all depth self ((key, val) # rest) =
     (case iht_setitem depth self key val of
        Inl e \<Rightarrow> Inl e
      | Inr self' \<Rightarrow> iht_set_all depth self' rest)"

text \<open>
  The number of terminal (key, value) pairs reachable under a node, directly or through
  descendant nodes: the quantity a node's entry count is specified to equal.
\<close>

function terminal_pairs :: "'v iht \<Rightarrow> nat" where
  "terminal_pairs t =
     sum_list (map (\<lambda>slot. case slot of
                      None \<Rightarrow> 0
                    | Some (k, Val v) \<Rightarrow> 1
                    | Some (k, Tab c) \<Rightarrow> terminal_pairs c) (array t))"
  by pat_completeness auto
termination
  by (relation "measure size") (auto simp: in_set_conv_nth dest: size_child)

text \<open>The tables of the "cat"/"car" scenario.\<close>

definition cat_table :: "nat iht" where
  "cat_table = InfiniteHashTable ((replicate 27 None)[21 := Some (''cat'', Val 1)]) 1 0"

definition cat_car_leaves :: "nat iht" where
  "cat_car_leaves =
     InfiniteHashTable
       ((replicate 27 None)[12 := Some (''cat'', Val 1), 10 := Some (''car'', Val 2)]) 2 2"

definition cat_car_table :: "nat iht" where
  "cat_car_table =
     InfiniteHashTable ((replicate 27 None)[21 := Some (''c'', Tab
       (InfiniteHashTable ((replicate 27 None)[19 := Some (''ca'', Tab cat_car_leaves)]) 2 1))])
       2 0"

declare get_item_aux.simps [simp del] delete_item_aux.simps [simp del]
  sort_keys_aux.simps [simp del] sort_keys_loop.simps [simp del] terminal_pairs.simps [simp del]

text \<open>
  The table states a client can reach: the empty table, and what \<open>__setitem__\<close> and
  \<open>__delitem__\<close> return from such a state when they return normally.
\<close>

inductive iht_reachable :: "'v iht \<Rightarrow> bool" where
  init: "iht_reachable (new_table 0)"
| set: "iht_reachable t \<Longrightarrow> iht_setitem depth t key val = Inr t' \<Longrightarrow> iht_reachable t'"
| del: "iht_reachable t \<Longrightarrow> iht_delitem t key = Inr t' \<Longrightarrow> iht_reachable t'"

text \<open>
  \<open>stored k t\<close>: \<open>k\<close> is the first component of a tuple in a slot of \<open>t\<close> or of a table
  below it. \<open>wide t\<close>: every array in \<open>t\<close> has \<open>TABLE_SIZE\<close> slots. A table below the
  root is \<open>good\<close> when it is wide and stores no empty string; the root keeps the empty key,
  if at all, as a value in its last slot.
\<close>

inductive stored :: "string \<Rightarrow> 'v iht \<Rightarrow> bool" where
  here: "p < length (array t) \<Longrightarrow> array t ! p = Some (k, x) \<Longrightarrow> stored k t"
| below: "p < length (array t) \<Longrightarrow> array t ! p = Some (k', Tab c) \<Longrightarrow> stored k c \<Longrightarrow> stored k t"

inductive wide :: "'v iht \<Rightarrow> bool" where
  "length (array t) = TABLE_SIZE \<Longrightarrow>
   (\<And>p k c. p < length (array t) \<Longrightarrow> array t ! p = Some (k, Tab c) \<Longrightarrow> wide c) \<Longrightarrow> wide t"

definition good :: "'v iht \<Rightarrow> bool" where
  "good c = (wide c \<and> \<not> stored [] c)"

definition good_item :: "(string \<times> 'v payload) \<Rightarrow> bool" where
  "good_item item = (fst item \<noteq> [] \<and> (\<forall>c. snd item = Tab c \<longrightarrow> good c))"

definition root_inv :: "'v iht \<Rightarrow> bool" where
  "root_inv t =
     (length (array t) = TABLE_SIZE \<and> level t = 0
      \<and> (array t ! 26 = None \<or> (\<exists>v. array t ! 26 = Some ([], Val v)))
      \<and> (\<forall>p<26. \<forall>item. array t ! p = Some item \<longrightarrow> good_item item))"

definition empty_key_table :: "nat iht" where
  "empty_key_table = InfiniteHashTable ((replicate 27 None)[26 := Some ([], Val 5)]) 1 0"

section \<open>The composite-key table (double\_key\_table.py)\<close>

text \<open>
  Modelled from the spec: the single-key probe table \<open>LinearProbeTable\<close>
  (\<open>data_structures/hash_table.py\<close>) is not among the sources. What the composite table
  reads and writes of it is in the source: the slot array \<open>array\<close> of \<open>(key, value)\<close>
  tuples or \<open>None\<close>, the entry counter \<open>count\<close>, \<open>table_size = len(array)\<close>, and the
  replaceable \<open>hash\<close>. The capacity ladder and the index into it follow the spec
  ("construction parameterized by a capacity ladder", "a table tracks a current index into
  this ladder; capacity = ladder[index]").
\<close>

record 'v LinearProbeTable =
  array_lp :: "(string \<times> 'v) option list"
  count_lp :: int
  TABLE_SIZES_lp :: "nat list"
  size_index_lp :: nat

text \<open>
  The fields of a \<open>DoubleKeyTable\<close> object, lines 31-42. A slot of the outer array is
  \<open>None\<close> or \<open>(key1, inner table)\<close>. Each inner table is referenced from one slot only,
  so mutation in place is the replacement of the slot's content.
\<close>

record 'v DoubleKeyTable =
  TABLE_SIZES :: "nat list"
  internal_sizes :: "nat list"
  size_index :: nat
  array_dk :: "(string \<times> 'v LinearProbeTable) option list"
  count_dk :: int

definition DEFAULT_TABLE_SIZES :: "nat list" where
  "DEFAULT_TABLE_SIZES = [5, 13, 29, 53, 97, 193, 389, 769, 1543, 3079, 6151, 12289, 24593,
     49157, 98317, 196613, 393241, 786433, 1572869]"

definition HASH_BASE :: nat where
  "HASH_BASE = 31"

text \<open>
  \<open>__init__\<close>, lines 31-42. An empty ladder makes \<open>TABLE_SIZES[0]\<close> raise \<open>IndexError\<close>.
  Modelled from the spec: \<open>ArrayR(n)\<close>, the fixed-capacity array, is \<open>n\<close> empty slots.
\<close>

definition init_dkt :: "nat list option \<Rightarrow> nat list option \<Rightarrow> error + 'v DoubleKeyTable" where
  "init_dkt sizes internal =
     (let ts = (case sizes of None \<Rightarrow> DEFAULT_TABLE_SIZES | Some s \<Rightarrow> s);
          ins = (case internal of None \<Rightarrow> ts | Some s \<Rightarrow> s)
      in if ts = [] then Inl IndexError
         else Inr \<lparr>TABLE_SIZES = ts, internal_sizes = ins, size_index = 0,
                   array_dk = replicate (ts ! 0) None, count_dk = 0\<rparr>)"

text \<open>
  \<open>hash1\<close> and \<open>hash2\<close>, lines 44-70: the same loop over the characters, against the
  length of the outer array and of the inner table's array. With a non-empty key, a table
  size of 0 or 1 makes one of the two \<open>%\<close> raise \<open>ZeroDivisionError\<close>.
\<close>

fun hash_loop :: "nat \<Rightarrow> string \<Rightarrow> nat \<Rightarrow> nat \<Rightarrow> nat" where
  "hash_loop table_size [] val a = val"
| "hash_loop table_size (c # cs) val a =
     hash_loop table_size cs ((ord c + a * val) mod table_size) (a * HASH_BASE mod (table_size - 1))"

definition hash_str :: "nat \<Rightarrow> string \<Rightarrow> error + nat" where
  "hash_str table_size key =
     (if key \<noteq> [] \<and> table_size \<le> 1 then Inl ZeroDivisionError
      else Inr (hash_loop table_size key 0 31417))"

definition hash1 :: "'v DoubleKeyTable \<Rightarrow> string \<Rightarrow> error + nat" where
  "hash1 self key = hash_str (length (array_dk self)) key"

definition hash2 :: "string \<Rightarrow> 'v LinearProbeTable \<Rightarrow> error + nat" where
  "hash2 key sub_table = hash_str (length (array_lp sub_table)) key"

text \<open>
  The two probing loops of \<open>_linear_probe\<close>, lines 117-134 and 146-165, are the same loop
  over different arrays, with different messages. The first argument is the message of
  \<open>FullError\<close>, the second the number of iterations left (the test
  \<open>i == len(array) - 1\<close> is "none left after this one"). The result is the position at
  \<open>break\<close>, or at the end of the loop.
\<close>

fun probe :: "string \<Rightarrow> nat \<Rightarrow> nat \<Rightarrow> (string \<times> 'a) option list \<Rightarrow> string \<Rightarrow> bool \<Rightarrow> error + nat" where
  "probe msg 0 position arr key is_insert = Inr position"
| "probe msg (Suc r) position arr key is_insert =
     (if length arr \<le> position then Inl IndexError
      else case arr ! position of
        None \<Rightarrow> if is_insert then Inr position else Inl (KeyError key)
      | Some (k, x) \<Rightarrow>
          if k = key then Inr position
          else if r = 0 then Inl (FullError msg)
          else probe msg r ((position + 1) mod length arr) arr key is_insert)"

text \<open>
  Modelled from the spec: \<open>LinearProbeTable(sizes)\<close> starts at the first capacity of its
  ladder, empty.
\<close>

definition new_lpt :: "nat list \<Rightarrow> error + 'v LinearProbeTable" where
  "new_lpt sizes =
     (if sizes = [] then Inl IndexError
      else Inr \<lparr>array_lp = replicate (sizes ! 0) None, count_lp = 0, TABLE_SIZES_lp = sizes,
                size_index_lp = 0\<rparr>)"

text \<open>
  Modelled from the spec: \<open>LinearProbeTable.__setitem__\<close>. The spec describes the inner
  table as an open-addressing table with "the same probing logic" as the outer one, whose
  capacity follows its ladder: the key goes to the first slot on its probe path that is
  empty or holds the key, the counter grows when the slot was empty, and when the entries
  exceed half the capacity the table moves to the next capacity and reinserts its entries
  in slot order. "Exhausting the ladder while still overflowing is a fatal condition for
  that table": \<open>FullError\<close>. The hash is \<open>hash2\<close>, which line 140 installs in every
  inner table. The first argument bounds the nesting of resizes, of which there are at
  most as many as capacities left: \<open>lpt_setitem\<close> gives one more than that.
\<close>

fun lpt_set_fuel :: "nat \<Rightarrow> 'v LinearProbeTable \<Rightarrow> string \<Rightarrow> 'v \<Rightarrow> error + 'v LinearProbeTable"
  and lpt_rehash :: "nat \<Rightarrow> 'v LinearProbeTable \<Rightarrow> error + 'v LinearProbeTable"
  and lpt_reinsert :: "nat \<Rightarrow> 'v LinearProbeTable \<Rightarrow> (string \<times> 'v) option list \<Rightarrow> error + 'v LinearProbeTable"
  where
  "lpt_set_fuel f tab key data =
     (case hash2 key tab of
        Inl e \<Rightarrow> Inl e
      | Inr h \<Rightarrow>
          (case probe ''Table is full'' (length (array_lp tab)) h (array_lp tab) key True of
             Inl e \<Rightarrow> Inl e
           | Inr position \<Rightarrow>
               if length (array_lp tab) \<le> position then Inl IndexError
               else
                 let tab1 = tab\<lparr>count_lp := (if array_lp tab ! position = None then count_lp tab + 1
                                              else count_lp tab),
                                 array_lp := (array_lp tab)[position := Some (key, data)]\<rparr>
                 in if 2 * count_lp tab1 > int (length (array_lp tab1)) then lpt_rehash f tab1
                    else Inr tab1))"
| "lpt_rehash 0 tab = Inl OutOfFuel"
| "lpt_rehash (Suc f) tab =
     (let idx = size_index_lp tab + 1 in
      if length (TABLE_SIZES_lp tab) \<le> idx then Inl (FullError ''Table is full'')
      else lpt_reinsert f
             (tab\<lparr>size_index_lp := idx, array_lp := replicate (TABLE_SIZES_lp tab ! idx) None,
                   count_lp := 0\<rparr>)
             (array_lp tab))"
| "lpt_reinsert f tab [] = Inr tab"
| "lpt_reinsert f tab (item # rest) =
     (case item of
        None \<Rightarrow> lpt_reinsert f tab rest
      | Some (k, v) \<Rightarrow>
          (case lpt_set_fuel f tab k v of
             Inl e \<Rightarrow> Inl e
           | Inr tab' \<Rightarrow> lpt_reinsert f tab' rest))"

definition lpt_setitem :: "'v LinearProbeTable \<Rightarrow> string \<Rightarrow> 'v \<Rightarrow> error + 'v LinearProbeTable" where
  "lpt_setitem tab key data =
     lpt_set_fuel (Suc (length (TABLE_SIZES_lp tab) - size_index_lp tab)) tab key data"

text \<open>
  \<open>_linear_probe\<close>, lines 113-169. The result is the table (with the inner table that
  line 137 creates on an insert into an empty slot) and the positions returned. Python
  evaluates \<open>self.array[position_1]\<close> on line 136 only for an insert, and on line 143
  only with a second key; on an array of length 0 this raises \<open>IndexError\<close>.
\<close>

definition linear_probe ::
  "'v DoubleKeyTable \<Rightarrow> string \<Rightarrow> string option \<Rightarrow> bool
     \<Rightarrow> error + ('v DoubleKeyTable \<times> nat \<times> nat option)" where
  "linear_probe self key1 key2 is_insert =
     (case hash1 self key1 of
        Inl e \<Rightarrow> Inl e
      | Inr h1 \<Rightarrow>
          (case probe ''Hash Table is full'' (length (array_dk self)) h1 (array_dk self) key1 is_insert of
             Inl e \<Rightarrow> Inl e
           | Inr position_1 \<Rightarrow>
               if (is_insert \<or> key2 \<noteq> None) \<and> length (array_dk self) \<le> position_1 then Inl IndexError
               else
                 (case (if is_insert \<and> array_dk self ! position_1 = None
                        then (case new_lpt (internal_sizes self) of
                                Inl e \<Rightarrow> Inl e
                              | Inr t \<Rightarrow> Inr (self\<lparr>array_dk := (array_dk self)[position_1 := Some (key1, t)]\<rparr>))
                        else Inr self) of
                    Inl e \<Rightarrow> Inl e
                  | Inr self1 \<Rightarrow>
                      (case key2 of
                         None \<Rightarrow> Inr (self1, position_1, None)
                       | Some k2 \<Rightarrow>
                           (case array_dk self1 ! position_1 of
                              None \<Rightarrow> Inl TypeError
                            | Some (k, sub_table) \<Rightarrow>
                                (case hash2 k2 sub_table of
                                   Inl e \<Rightarrow> Inl e
                                 | Inr h2 \<Rightarrow>
                                     (case probe ''Internal Hash Table is full''
                                             (length (array_lp sub_table)) h2 (array_lp sub_table) k2 is_insert of
                                        Inl e \<Rightarrow> Inl e
                                      | Inr position_2 \<Rightarrow> Inr (self1, position_1, Some position_2))))))))"

text \<open>
  \<open>__getitem__\<close>, lines 307-308, and \<open>__contains__\<close>, lines 284-289 (only \<open>KeyError\<close>
  is caught).
\<close>

definition dkt_getitem :: "'v DoubleKeyTable \<Rightarrow> string \<times> string \<Rightarrow> error + 'v" where
  "dkt_getitem self key =
     (case linear_probe self (fst key) (Some (snd key)) False of
        Inl e \<Rightarrow> Inl e
      | Inr (self1, position1, position2) \<Rightarrow>
          (case (array_dk self1 ! position1, position2) of
             (Some (k, sub_table), Some p2) \<Rightarrow>
               if length (array_lp sub_table) \<le> p2 then Inl IndexError
               else (case array_lp sub_table ! p2 of
                       None \<Rightarrow> Inl TypeError
                     | Some (k2, v) \<Rightarrow> Inr v)
           | _ \<Rightarrow> Inl TypeError))"

definition dkt_contains :: "'v DoubleKeyTable \<Rightarrow> string \<times> string \<Rightarrow> error + bool" where
  "dkt_contains self key =
     (case dkt_getitem self key of
        Inl (KeyError k) \<Rightarrow> Inr False
      | Inl e \<Rightarrow> Inl e
      | Inr v \<Rightarrow> Inr True)"

text \<open>
  \<open>__setitem__\<close>, lines 324-331: everything before the resize check. Modelled from the
  spec: \<open>is_empty()\<close> of the inner table is "no entries", \<open>count == 0\<close>.
\<close>

definition setitem_core :: "'v DoubleKeyTable \<Rightarrow> string \<times> string \<Rightarrow> 'v \<Rightarrow> error + 'v DoubleKeyTable" where
  "setitem_core self key data =
     (case linear_probe self (fst key) (Some (snd key)) True of
        Inl e \<Rightarrow> Inl e
      | Inr (self1, position1, position2) \<Rightarrow>
          (case array_dk self1 ! position1 of
             None \<Rightarrow> Inl TypeError
           | Some (k, sub_table) \<Rightarrow>
               (case lpt_setitem sub_table (snd key) data of
                  Inl e \<Rightarrow> Inl e
                | Inr sub_table' \<Rightarrow>
                    Inr (self1\<lparr>count_dk := (if count_lp sub_table = 0 then count_dk self1 + 1
                                              else count_dk self1),
                               array_dk := (array_dk self1)[position1 := Some (k, sub_table')]\<rparr>))))"

text \<open>
  The resize check of line 334, \<open>len(self) > self.table_size / 2\<close>.
\<close>

definition over_half :: "'v DoubleKeyTable \<Rightarrow> bool" where
  "over_half self = (2 * count_dk self > int (length (array_dk self)))"

text \<open>
  \<open>__setitem__\<close>, lines 324-335, and \<open>_rehash\<close>, lines 407-423, which call each other.
  \<open>rehash_outer\<close> is the loop over \<open>old_array\<close> with the countdown \<open>old_count\<close>,
  \<open>rehash_inner\<close> the loop over the array of one old inner table. The first argument
  bounds the nesting of \<open>_rehash\<close> inside \<open>__setitem__\<close> inside \<open>_rehash\<close>; each level
  moves \<open>size_index\<close> up by one, and \<open>_rehash\<close> raises \<open>IndexError\<close> beyond the ladder,
  so \<open>rehash_fuel\<close> is enough.
\<close>

function dkt_set_fuel :: "nat \<Rightarrow> 'v DoubleKeyTable \<Rightarrow> string \<times> string \<Rightarrow> 'v \<Rightarrow> error + 'v DoubleKeyTable"
  and dkt_rehash :: "nat \<Rightarrow> 'v DoubleKeyTable \<Rightarrow> error + 'v DoubleKeyTable"
  and rehash_outer :: "nat \<Rightarrow> 'v DoubleKeyTable \<Rightarrow> (string \<times> 'v LinearProbeTable) option list \<Rightarrow> int
                         \<Rightarrow> error + 'v DoubleKeyTable"
  and rehash_inner :: "nat \<Rightarrow> 'v DoubleKeyTable \<Rightarrow> string \<Rightarrow> (string \<times> 'v) option list
                         \<Rightarrow> error + 'v DoubleKeyTable"
  where
  "dkt_set_fuel f self key data =
     (case setitem_core self key data of
        Inl e \<Rightarrow> Inl e
      | Inr self1 \<Rightarrow> if over_half self1 then dkt_rehash f self1 else Inr self1)"
| "dkt_rehash 0 self = Inl OutOfFuel"
| "dkt_rehash (Suc f) self =
     (let idx = size_index self + 1 in
      if length (TABLE_SIZES self) \<le> idx then Inl IndexError
      else rehash_outer f
             (self\<lparr>size_index := idx, array_dk := replicate (TABLE_SIZES self ! idx) None,
                   count_dk := 0\<rparr>)
             (array_dk self) (count_dk self))"
| "rehash_outer f self [] old_count = Inr self"
| "rehash_outer f self (item1 # rest) old_count =
     (case item1 of
        None \<Rightarrow> if old_count = 0 then Inr self else rehash_outer f self rest old_count
      | Some (key1, sub_table) \<Rightarrow>
          (case rehash_inner f self key1 (array_lp sub_table) of
             Inl e \<Rightarrow> Inl e
           | Inr self' \<Rightarrow>
               if old_count - 1 = 0 then Inr self'
               else rehash_outer f self' rest (old_count - 1)))"
| "rehash_inner f self key1 [] = Inr self"
| "rehash_inner f self key1 (item2 # rest) =
     (case item2 of
        None \<Rightarrow> rehash_inner f self key1 rest
      | Some (key2, v) \<Rightarrow>
          (case dkt_set_fuel f self (key1, key2) v of
             Inl e \<Rightarrow> Inl e
           | Inr self' \<Rightarrow> rehash_inner f self' key1 rest))"

  by pat_completeness auto
termination
  by (relation "inv_image (less_than <*lex*> less_than <*lex*> less_than)
        (\<lambda>x. case x of
           Inl (Inl (f, self, key, data)) \<Rightarrow> (f, 1, 0)
         | Inl (Inr (f, self)) \<Rightarrow> (f, 0, 0)
         | Inr (Inl (f, self, items, old_count)) \<Rightarrow> (f, 3, length items)
         | Inr (Inr (f, self, key1, items)) \<Rightarrow> (f, 2, length items))")
     auto

definition rehash_fuel :: "'v DoubleKeyTable \<Rightarrow> nat" where
  "rehash_fuel self = Suc (length (TABLE_SIZES self) - size_index self)"

definition dkt_setitem :: "'v DoubleKeyTable \<Rightarrow> string \<times> string \<Rightarrow> 'v \<Rightarrow> error + 'v DoubleKeyTable" where
  "dkt_setitem self key data = dkt_set_fuel (rehash_fuel self) self key data"


text \<open>
  The loop of lines 392-397 over the inner table, from the slot after the vacated one to
  the next empty slot. A loop that is given too few iterations ends with \<open>OutOfFuel\<close>.
\<close>

fun del_inner_loop :: "nat \<Rightarrow> 'v LinearProbeTable \<Rightarrow> nat \<Rightarrow> error + 'v LinearProbeTable" where
  "del_inner_loop 0 sub_table position2 = Inl OutOfFuel"
| "del_inner_loop (Suc n) sub_table position2 =
     (if length (array_lp sub_table) \<le> position2 then Inl IndexError
      else case array_lp sub_table ! position2 of
        None \<Rightarrow> Inr sub_table
      | Some (k, v) \<Rightarrow>
          (case lpt_setitem
                  (sub_table\<lparr>array_lp := (array_lp sub_table)[position2 := None],
                             count_lp := count_lp sub_table - 1\<rparr>) k v of
             Inl e \<Rightarrow> Inl e
           | Inr sub_table' \<Rightarrow>
               if length (array_lp sub_table') = 0 then Inl ZeroDivisionError
               else del_inner_loop n sub_table' ((position2 + 1) mod length (array_lp sub_table'))))"

text \<open>
  \<open>__setitem__\<close> once more, for callers that keep a reference to an inner table across
  the call: the result is the table after the call and, when the call resized, the table
  as it was just before \<open>_rehash\<close>, whose objects the resize leaves behind unchanged.
\<close>

definition setitem_steps ::
  "'v DoubleKeyTable \<Rightarrow> string \<times> string \<Rightarrow> 'v
     \<Rightarrow> error + ('v DoubleKeyTable \<times> 'v DoubleKeyTable option)" where
  "setitem_steps self key data =
     (case setitem_core self key data of
        Inl e \<Rightarrow> Inl e
      | Inr self1 \<Rightarrow>
          if over_half self1 then
            (case dkt_rehash (rehash_fuel self) self1 of
               Inl e \<Rightarrow> Inl e
             | Inr self2 \<Rightarrow> Inr (self2, Some self1))
          else Inr (self1, None))"

text \<open>
  The loop of lines 373-378 over the indices of \<open>sub_table.array\<close>, for the outer slot
  \<open>position1\<close>. The variable \<open>sub_table\<close> is a reference: as long as no resize has
  happened it is the table in slot \<open>position1\<close> (argument \<open>None\<close>), which
  \<open>self[...] = value\<close> may change; after a resize it is an object that the table no
  longer holds, carried in the fourth argument.
\<close>

fun del_for ::
  "'v DoubleKeyTable \<Rightarrow> nat \<Rightarrow> string \<Rightarrow> 'v LinearProbeTable option \<Rightarrow> nat list
     \<Rightarrow> error + 'v DoubleKeyTable" where
  "del_for self position1 key1 detached [] = Inr self"
| "del_for self position1 key1 detached (i # rest) =
     (case (case detached of
              Some d \<Rightarrow> Some d
            | None \<Rightarrow> (case array_dk self ! position1 of
                         None \<Rightarrow> None
                       | Some (k, s) \<Rightarrow> Some s)) of
        None \<Rightarrow> Inl TypeError
      | Some sub_table \<Rightarrow>
          (if length (array_lp sub_table) \<le> i then Inl IndexError
           else
             (case array_lp sub_table ! i of
                None \<Rightarrow> del_for self position1 key1 detached rest
              | Some (key2, v) \<Rightarrow>
                  (let sub1 = sub_table\<lparr>array_lp := (array_lp sub_table)[i := None],
                                        count_lp := count_lp sub_table - 1\<rparr>;
                       self1 = (case detached of
                                  Some d \<Rightarrow> self
                                | None \<Rightarrow>
                                    self\<lparr>array_dk := (array_dk self)[position1 := Some (key1, sub1)]\<rparr>)
                   in (case setitem_steps self1 (key1, key2) v of
                         Inl e \<Rightarrow> Inl e
                       | Inr (self2, None) \<Rightarrow>
                           del_for self2 position1 key1
                             (case detached of Some d \<Rightarrow> Some sub1 | None \<Rightarrow> None) rest
                       | Inr (self2, Some prior) \<Rightarrow>
                           del_for self2 position1 key1
                             (case detached of
                                Some d \<Rightarrow> Some sub1
                              | None \<Rightarrow> (case array_dk prior ! position1 of
                                           None \<Rightarrow> Some sub1
                                         | Some (k, s) \<Rightarrow> Some s)) rest)))))"

text \<open>
  The loop of lines 370-379 over the outer slots after the vacated one, to the next empty
  slot.
\<close>

fun del_outer_loop :: "nat \<Rightarrow> 'v DoubleKeyTable \<Rightarrow> nat \<Rightarrow> error + 'v DoubleKeyTable" where
  "del_outer_loop 0 self position1 = Inl OutOfFuel"
| "del_outer_loop (Suc n) self position1 =
     (if length (array_dk self) \<le> position1 then Inl IndexError
      else case array_dk self ! position1 of
        None \<Rightarrow> Inr self
      | Some (key1, sub_table) \<Rightarrow>
          (case del_for self position1 key1 None [0..<length (array_lp sub_table)] of
             Inl e \<Rightarrow> Inl e
           | Inr self' \<Rightarrow>
               if length (array_dk self') = 0 then Inl ZeroDivisionError
               else del_outer_loop n self' ((position1 + 1) mod length (array_dk self'))))"

text \<open>
  \<open>__delitem__\<close>, lines 357-397. The first argument bounds the iterations of either
  \<open>while\<close> loop. Modelled from the spec: \<open>len\<close> of the inner table is its counter
  (a negative one makes \<open>len\<close> raise \<open>ValueError\<close>).
\<close>

definition dkt_delitem :: "nat \<Rightarrow> 'v DoubleKeyTable \<Rightarrow> string \<times> string \<Rightarrow> error + 'v DoubleKeyTable" where
  "dkt_delitem n self key =
     (case linear_probe self (fst key) (Some (snd key)) False of
        Inl e \<Rightarrow> Inl e
      | Inr (self0, position1, position2) \<Rightarrow>
          (case (array_dk self ! position1, position2) of
             (Some (k1, sub_table), Some p2) \<Rightarrow>
               if count_lp sub_table < 0 then Inl ValueError
               else if count_lp sub_table = 1 then
                 del_outer_loop n
                   (self\<lparr>array_dk := (array_dk self)[position1 := None], count_dk := count_dk self - 1\<rparr>)
                   ((position1 + 1) mod length (array_dk self))
               else if length (array_lp sub_table) \<le> p2 then Inl IndexError
               else
                 (case del_inner_loop n
                         (sub_table\<lparr>array_lp := (array_lp sub_table)[p2 := None],
                                    count_lp := count_lp sub_table - 1\<rparr>)
                         ((p2 + 1) mod length (array_lp sub_table)) of
                    Inl e \<Rightarrow> Inl e
                  | Inr sub_table' \<Rightarrow>
                      Inr (self\<lparr>array_dk := (array_dk self)[position1 := Some (k1, sub_table')]\<rparr>))
           | _ \<Rightarrow> Inl TypeError))"

text \<open>
  A sequence of \<open>table[key1, key2] = value\<close> statements, stopping at the first exception.
\<close>

fun dkt_set_all :: "'v DoubleKeyTable \<Rightarrow> ((string \<times> string) \<times> 'v) list \<Rightarrow> error + 'v DoubleKeyTable" where
  "dkt_set_all self [] = Inr self"
| "dkt_set_all self ((key, data) # rest) =
     (case dkt_setitem self key data of
        Inl e \<Rightarrow> Inl e
      | Inr self' \<Rightarrow> dkt_set_all self' rest)"


section \<open>Properties of the trie table\<close>

text \<open>
  C9, as the code has it: the bucket of a key at a level is the code of the key's
  character at that position modulo 26, one of the indices 0..25, and a key with at most
  \<open>level\<close> characters gets the terminal index 26. The mapping is case-sensitive.
\<close>

theorem hash_bucket:
  "(level self < length key \<longrightarrow>
      hash self key = ord (key ! level self) mod 26 \<and> hash self key < 26)
   \<and> (length key \<le> level self \<longrightarrow> hash self key = 26)"
  by (simp add: hash_def TABLE_SIZE_def)

theorem hash_bucket_witness:
  "level (new_table 0 :: nat iht) < length ''cat''
   \<and> hash (new_table 0 :: nat iht) ''cat'' = 21
   \<and> length ''ca'' \<le> level (new_table 2 :: nat iht)
   \<and> hash (new_table 2 :: nat iht) ''ca'' = 26"
  using hash_bucket [of "new_table 0 :: nat iht" "''cat''"]
    hash_bucket [of "new_table 2 :: nat iht" "''ca''"]
  by (simp add: new_table_def ord_def)

text \<open>
  C9, as stated, fails: \<open>'A'\<close> and \<open>'a'\<close> do not get the same index (13 and 19).
\<close>

theorem hash_case_sensitive:
  "hash (new_table 0 :: nat iht) ''A'' = 13 \<and> hash (new_table 0 :: nat iht) ''a'' = 19
   \<and> hash (new_table 0 :: nat iht) ''A'' \<noteq> hash (new_table 0 :: nat iht) ''a''"
  by (simp add: hash_def new_table_def TABLE_SIZE_def ord_def)

text \<open>
  C4: from the empty table, setting "cat" to 1 and then "car" to 2 gives a root whose
  slot for \<open>'c'\<close> holds a level-1 node, whose slot for \<open>'a'\<close> holds a level-2 node with
  the two entries in the slots of \<open>'t'\<close> and \<open>'r'\<close>; both keys are retrievable along
  the paths [21, 19, 12] and [21, 19, 10]. Deleting "car" gives back the table that holds
  "cat" alone in the top-level slot 21, where "cat" is found with value 1 and "car" is
  not contained. The depth budget is any that allows the descent.
\<close>

lemma replicate_27:
  "replicate 27 x = [x, x, x, x, x, x, x, x, x, x, x, x, x, x, x, x, x, x, x, x, x, x, x, x, x, x, x]"
  by (simp add: eval_nat_numeral)

theorem cat_car_split_and_collapse:
  "iht_setitem (Suc n) (new_table 0) ''cat'' 1 = Inr cat_table
   \<and> iht_setitem (Suc (Suc (Suc n))) cat_table ''car'' 2 = Inr cat_car_table
   \<and> iht_getitem cat_car_table ''cat'' = Inr 1
   \<and> iht_getitem cat_car_table ''car'' = Inr 2
   \<and> get_location cat_car_table ''cat'' = Inr [21, 19, 12]
   \<and> get_location cat_car_table ''car'' = Inr [21, 19, 10]
   \<and> iht_delitem cat_car_table ''car'' = Inr cat_table
   \<and> iht_getitem cat_table ''cat'' = Inr 1
   \<and> get_location cat_table ''cat'' = Inr [21]
   \<and> iht_contains cat_table ''car'' = Inr False"
proof -
  have first: "iht_setitem (Suc n) (new_table 0) ''cat'' 1 = Inr cat_table"
    by (simp add: iht_setitem_def new_table_def cat_table_def hash_def TABLE_SIZE_def ord_def
        Let_def replicate_27)
  have second: "iht_setitem (Suc (Suc (Suc n))) cat_table ''car'' 2 = Inr cat_car_table"
    by (simp add: iht_setitem_def new_table_def cat_table_def cat_car_table_def
        cat_car_leaves_def hash_def TABLE_SIZE_def ord_def Let_def replicate_27)
  have rest:
    "iht_getitem cat_car_table ''cat'' = Inr 1
     \<and> iht_getitem cat_car_table ''car'' = Inr 2
     \<and> get_location cat_car_table ''cat'' = Inr [21, 19, 12]
     \<and> get_location cat_car_table ''car'' = Inr [21, 19, 10]
     \<and> iht_delitem cat_car_table ''car'' = Inr cat_table
     \<and> iht_getitem cat_table ''cat'' = Inr 1
     \<and> get_location cat_table ''cat'' = Inr [21]
     \<and> iht_contains cat_table ''car'' = Inr False"
    by code_simp
  from first second rest show ?thesis by blast
qed

text \<open>
  C5 fails on the code: the list that \<open>sort_keys\<close> fills is not fresh. On the table
  holding "dog", "cat", "ant" and "apple" the first call (the default list still empty)
  returns the four keys in order; the second call on the unchanged table starts from that
  list and returns every key twice.
\<close>

theorem sort_keys_accumulates:
  "(case iht_set_all 9 (new_table 0)
           [(''dog'', 1::nat), (''cat'', 2), (''ant'', 3), (''apple'', 4)] of
      Inl e \<Rightarrow> False
    | Inr t \<Rightarrow>
        sort_keys t [] = Inr [''ant'', ''apple'', ''cat'', ''dog'']
        \<and> sort_keys t [''ant'', ''apple'', ''cat'', ''dog'']
            = Inr [''ant'', ''apple'', ''cat'', ''dog'', ''ant'', ''apple'', ''cat'', ''dog''])"
  by code_simp

text \<open>
  C8 fails on the code: overwriting a key that sits below the root takes the fourth
  branch of \<open>set_item_aux\<close> at the root, which adds one to the count before it descends.
  After "cat", "car" and "cat" again the root counts 3 with two terminal pairs under it.
\<close>

theorem overwrite_below_root_changes_count:
  "count cat_car_table = 2 \<and> terminal_pairs cat_car_table = 2
   \<and> (case iht_setitem 3 cat_car_table ''cat'' 3 of
        Inl e \<Rightarrow> False
      | Inr t \<Rightarrow>
          count t = 3 \<and> terminal_pairs t = 2
          \<and> iht_getitem t ''cat'' = Inr 3 \<and> iht_getitem t ''car'' = Inr 2)"
  by code_simp

lemma good_slots:
  "good c = (length (array c) = TABLE_SIZE \<and> (\<forall>p<length (array c). \<forall>item. array c ! p = Some item \<longrightarrow> good_item item))"
  unfolding good_def good_item_def
  apply (subst wide.simps)
  apply (subst stored.simps)
  apply auto
  done

lemma good_new_table: "good (new_table l)"
  by (simp add: good_slots new_table_def)

lemma good_nth:
  "good c \<Longrightarrow> p < length (array c) \<Longrightarrow> array c ! p = Some item \<Longrightarrow> good_item item"
  by (cases item) (auto simp: good_slots)

lemma good_update:
  assumes "good c" "good_item item"
  shows "good (InfiniteHashTable ((array c)[p := Some item]) n l)"
proof -
  have "good_item it" if "q < length (array c)" "(array c)[p := Some item] ! q = Some it" for q it
    using that assms good_nth[OF assms(1), of q it] by (cases "q = p") auto
  with assms(1) show ?thesis by (simp add: good_slots)
qed

lemma good_clear:
  assumes "good c"
  shows "good (InfiniteHashTable ((array c)[p := None]) n l)"
proof -
  have "good_item it" if "q < length (array c)" "(array c)[p := None] ! q = Some it" for q it
    using that assms good_nth[OF assms(1), of q it] by (cases "q = p") auto
  with assms(1) show ?thesis by (simp add: good_slots)
qed

lemma set_item_aux_good:
  "good c \<Longrightarrow> key \<noteq> [] \<Longrightarrow> set_item_aux d c key v l = Inr c' \<Longrightarrow> good c'"
proof (induction d arbitrary: c key v l c')
  case 0
  then show ?case by simp
next
  case (Suc d)
  let ?p = "hash c key"
  from Suc.prems(3) have inb: "?p < length (array c)"
    by (auto simp: Let_def split: if_splits)
  show ?case
  proof (cases "array c ! ?p")
    case None
    with Suc.prems inb show ?thesis
      by (auto simp: Let_def good_item_def intro!: good_update)
  next
    case (Some item)
    obtain k x where item: "item = (k, x)" by (cases item)
    from Suc.prems(1) inb Some have gi: "good_item item"
      by (rule good_nth)
    show ?thesis
    proof (cases "k = key")
      case True
      with Suc.prems inb Some item show ?thesis
        by (auto simp: Let_def good_item_def intro!: good_update)
    next
      case False
      show ?thesis
      proof (cases x)
        case (Val v0)
        from Suc.prems(3) inb Some item False Val obtain c1 c2 where
          c1: "set_item_aux d (new_table (l + 1)) k v0 (l + 1) = Inr c1" and
          c2: "set_item_aux d c1 key v (l + 1) = Inr c2" and
          c': "c' = InfiniteHashTable ((array c)[?p := Some (take (l + 1) k, Tab c2)]) (count c + 1) (level c)"
          by (auto simp: Let_def split: sum.splits)
        from gi item have kne: "k \<noteq> []" by (simp add: good_item_def)
        have "good c1" using Suc.IH[OF good_new_table kne c1] .
        then have "good c2" using Suc.IH[OF _ Suc.prems(2) c2] by simp
        moreover have "take (l + 1) k \<noteq> []" using kne by simp
        ultimately show ?thesis unfolding c'
          by (intro good_update[OF Suc.prems(1)]) (simp add: good_item_def)
      next
        case (Tab child)
        from Suc.prems(3) inb Some item False Tab obtain child' where
          c1: "set_item_aux d child key v (l + 1) = Inr child'" and
          c': "c' = InfiniteHashTable ((array c)[?p := Some (k, Tab child')]) (count c + 1) (level c)"
          by (auto simp: Let_def split: sum.splits)
        from gi item Tab have "good child" "k \<noteq> []" by (simp_all add: good_item_def)
        then have "good child'" using Suc.IH[OF _ Suc.prems(2) c1] by simp
        then show ?thesis unfolding c' using \<open>k \<noteq> []\<close>
          by (intro good_update[OF Suc.prems(1)]) (simp add: good_item_def)
      qed
    qed
  qed
qed


lemma find_in_set: "find P xs = Some x \<Longrightarrow> x \<in> set xs"
  by (induction xs) (auto split: if_splits)

lemma delete_item_aux_good:
  "good c \<Longrightarrow> delete_item_aux is_self c loc i pd n = Inr (c', r)
     \<Longrightarrow> good c' \<and> (\<forall>item. r = Some item \<longrightarrow> good_item item)"
proof (induction is_self c loc i pd n arbitrary: c' r rule: delete_item_aux.induct)
  case (1 is_self c loc i pd n)
  note eq = "1.prems"(2)[unfolded delete_item_aux.simps[of is_self c loc i pd n]]
  from eq have inb: "i < length loc" by (auto split: if_splits)
  define ti where "ti = loc ! i"
  show ?case
  proof (cases "pd = 0 \<and> int i = int n - 1")
    case True
    from eq True inb have res: "c' = InfiniteHashTable ((array c)[ti := None]) (count c - 1) (level c)"
      and r: "r = None \<or> r \<in> set ((array c)[ti := None])"
      by (auto simp: Let_def ti_def dest: find_in_set split: if_splits option.splits)
    have g: "good c'" unfolding res by (rule good_clear[OF "1.prems"(1)])
    have "good_item item" if "r = Some item" for item
    proof -
      from that r obtain q where q: "q < length (array c)" "(array c)[ti := None] ! q = Some item"
        by (auto simp: in_set_conv_nth)
      then have "q \<noteq> ti" by auto
      with q have "array c ! q = Some item" by simp
      with "1.prems"(1) q(1) show ?thesis by (rule good_nth)
    qed
    with g show ?thesis by blast
  next
    case False
    from eq False inb have tib: "ti < length (array c)"
      by (auto simp: Let_def ti_def split: if_splits)
    from eq False inb tib obtain k child where slot: "array c ! ti = Some (k, Tab child)"
      by (auto simp: Let_def ti_def split: if_splits option.splits payload.splits)
    from eq False inb tib slot obtain child' r' where
      rec: "delete_item_aux False child loc (i + 1) (pd - 1) n = Inr (child', r')"
      by (auto simp: Let_def ti_def split: sum.splits)
    have gi: "good_item (k, Tab child)" using "1.prems"(1) tib slot by (rule good_nth)
    then have gch: "good child" and kne: "k \<noteq> []" by (simp_all add: good_item_def)
    have nle: "\<not> length loc \<le> i" using inb by simp
    have nle2: "\<not> length (array c) \<le> ti" using tib by simp
    have IH: "good child' \<and> (\<forall>item. r' = Some item \<longrightarrow> good_item item)"
      using "1.IH"[OF nle refl False nle2[unfolded ti_def] slot[unfolded ti_def] refl refl gch rec] .
    have g1: "good (InfiniteHashTable ((array c)[ti := Some (k, Tab child')]) m l)" for m l
      using IH kne by (intro good_update[OF "1.prems"(1)]) (simp add: good_item_def)
    from eq False inb tib slot rec have cases:
      "(r' = None \<and> c' = InfiniteHashTable ((array c)[ti := Some (k, Tab child')]) (count c - 1) (level c) \<and> r = None)
       \<or> (\<exists>item. r' = Some item \<and> c' = InfiniteHashTable ((array c)[ti := Some item]) (count c - 1) (level c) \<and> r = None)
       \<or> (\<exists>item. r' = Some item \<and> c' = InfiniteHashTable ((array c)[ti := None]) (count c - 1) (level c) \<and> r = Some item)"
      by (auto simp: Let_def ti_def split: if_splits option.splits)
    then show ?thesis
    proof (elim disjE conjE exE)
      assume "c' = InfiniteHashTable ((array c)[ti := Some (k, Tab child')]) (count c - 1) (level c)" "r = None"
      then show ?thesis using g1 by simp
    next
      fix item assume "r' = Some item" "c' = InfiniteHashTable ((array c)[ti := Some item]) (count c - 1) (level c)" "r = None"
      then show ?thesis using IH good_update[OF "1.prems"(1)] by simp
    next
      fix item assume "r' = Some item" "c' = InfiniteHashTable ((array c)[ti := None]) (count c - 1) (level c)" "r = Some item"
      then show ?thesis using IH good_clear[OF "1.prems"(1)] by simp
    qed
  qed
qed


lemma nth_upd: "(xs[i := x]) ! j = (if i = j \<and> i < length xs then x else xs ! j)"
  by (cases "i < length xs") (auto simp: nth_list_update list_update_beyond)

lemma root_inv_update:
  assumes "root_inv t" "p < 26" "good_item item"
  shows "root_inv (InfiniteHashTable ((array t)[p := Some item]) m (level t))"
  using assms by (auto simp: root_inv_def nth_upd TABLE_SIZE_def)

lemma root_inv_clear:
  assumes "root_inv t"
  shows "root_inv (InfiniteHashTable ((array t)[p := None]) m (level t))"
  using assms by (auto simp: root_inv_def nth_upd TABLE_SIZE_def)

lemma root_inv_terminal:
  assumes "root_inv t"
  shows "root_inv (InfiniteHashTable ((array t)[26 := Some ([], Val v)]) m (level t))"
  using assms by (auto simp: root_inv_def nth_upd TABLE_SIZE_def)

lemma root_slot:
  assumes "root_inv t" "p < length (array t)" "array t ! p = Some (k, x)"
  shows "(p < 26 \<and> good_item (k, x)) \<or> (p = 26 \<and> k = [] \<and> (\<exists>v. x = Val v))"
proof (cases "p < 26")
  case True
  with assms show ?thesis by (simp add: root_inv_def)
next
  case False
  with assms have "p = 26" by (simp add: root_inv_def TABLE_SIZE_def)
  with assms show ?thesis by (auto simp: root_inv_def)
qed

lemma hash_root:
  assumes "root_inv t"
  shows "hash t key < length (array t)" and "key \<noteq> [] \<Longrightarrow> hash t key < 26" and "hash t [] = 26"
  using assms by (auto simp: root_inv_def hash_def TABLE_SIZE_def)

lemma iht_setitem_root_inv:
  assumes "root_inv t" "iht_setitem d t key v = Inr t'"
  shows "root_inv t'"
proof (cases d)
  case 0
  with assms show ?thesis by (simp add: iht_setitem_def)
next
  case (Suc d')
  let ?p = "hash t key"
  note inb = hash_root(1)[OF assms(1), of key]
  note eq = assms(2)[unfolded iht_setitem_def Suc]
  show ?thesis
  proof (cases "key = []")
    case True
    then have p: "?p = 26" using hash_root(3)[OF assms(1)] by simp
    from root_slot[OF assms(1) inb] p
    have "array t ! 26 = None \<or> (\<exists>v0. array t ! 26 = Some ([], Val v0))"
      by (cases "array t ! 26") auto
    with eq inb p True have "\<exists>m. t' = InfiniteHashTable ((array t)[26 := Some ([], Val v)]) m (level t)"
      by (auto simp: Let_def)
    then show ?thesis using root_inv_terminal[OF assms(1)] by auto
  next
    case False
    then have p: "?p < 26" using hash_root(2)[OF assms(1)] by simp
    show ?thesis
    proof (cases "array t ! ?p")
      case None
      with eq inb have "t' = InfiniteHashTable ((array t)[?p := Some (key, Val v)]) (count t + 1) (level t)"
        by (auto simp: Let_def)
      then show ?thesis using root_inv_update[OF assms(1) p, of "(key, Val v)"] False
        by (simp add: good_item_def)
    next
      case (Some item)
      obtain k x where item: "item = (k, x)" by (cases item)
      from root_slot[OF assms(1) inb Some[unfolded item]] p have gi: "good_item (k, x)" by auto
      then have kne: "k \<noteq> []" by (simp add: good_item_def)
      show ?thesis
      proof (cases "k = key")
        case True
        with eq inb Some item have "t' = InfiniteHashTable ((array t)[?p := Some (key, Val v)]) (count t) (level t)"
          by (auto simp: Let_def)
        then show ?thesis using root_inv_update[OF assms(1) p, of "(key, Val v)"] False
          by (simp add: good_item_def)
      next
        case kf: False
        show ?thesis
        proof (cases x)
          case (Val v0)
          from eq inb Some item kf Val obtain c1 c2 where
            c1: "set_item_aux d' (new_table (0 + 1)) k v0 (0 + 1) = Inr c1" and
            c2: "set_item_aux d' c1 key v (0 + 1) = Inr c2" and
            t': "t' = InfiniteHashTable ((array t)[?p := Some (take (0 + 1) k, Tab c2)]) (count t + 1) (level t)"
            by (auto simp: Let_def split: sum.splits)
          have "good c1" using set_item_aux_good[OF good_new_table kne c1] .
          then have "good c2" using set_item_aux_good[OF _ False c2] by simp
          moreover have "take (0 + 1) k \<noteq> []" using kne by simp
          ultimately have "good_item (take (0 + 1) k, Tab c2)" by (simp add: good_item_def)
          then show ?thesis unfolding t' by (rule root_inv_update[OF assms(1) p])
        next
          case (Tab child)
          from eq inb Some item kf Tab obtain child' where
            c1: "set_item_aux d' child key v (0 + 1) = Inr child'" and
            t': "t' = InfiniteHashTable ((array t)[?p := Some (k, Tab child')]) (count t + 1) (level t)"
            by (auto simp: Let_def split: sum.splits)
          from gi Tab have "good child" by (simp add: good_item_def)
          then have "good child'" using set_item_aux_good[OF _ False c1] by simp
          then have "good_item (k, Tab child')" using kne by (simp add: good_item_def)
          then show ?thesis unfolding t' by (rule root_inv_update[OF assms(1) p])
        qed
      qed
    qed
  qed
qed

lemma delete_item_aux_root_inv:
  assumes "root_inv t" "delete_item_aux is_self t loc i pd n = Inr (t', r)"
  shows "root_inv t'"
proof -
  note eq = assms(2)[unfolded delete_item_aux.simps[of is_self t loc i pd n]]
  from eq have inb: "i < length loc" by (auto split: if_splits)
  define ti where "ti = loc ! i"
  show ?thesis
  proof (cases "pd = 0 \<and> int i = int n - 1")
    case True
    from eq True inb have "t' = InfiniteHashTable ((array t)[ti := None]) (count t - 1) (level t)"
      by (auto simp: Let_def ti_def split: if_splits option.splits)
    then show ?thesis using root_inv_clear[OF assms(1)] by simp
  next
    case False
    from eq False inb have tib: "ti < length (array t)"
      by (auto simp: Let_def ti_def split: if_splits)
    from eq False inb tib obtain k child where slot: "array t ! ti = Some (k, Tab child)"
      by (auto simp: Let_def ti_def split: if_splits option.splits payload.splits)
    from eq False inb tib slot obtain child' r' where
      rec: "delete_item_aux False child loc (i + 1) (pd - 1) n = Inr (child', r')"
      by (auto simp: Let_def ti_def split: sum.splits)
    from root_slot[OF assms(1) tib slot] have p: "ti < 26" and gi: "good_item (k, Tab child)" by auto
    then have gch: "good child" and kne: "k \<noteq> []" by (simp_all add: good_item_def)
    note IH = delete_item_aux_good[OF gch rec]
    from eq False inb tib slot rec have cases:
      "(r' = None \<and> t' = InfiniteHashTable ((array t)[ti := Some (k, Tab child')]) (count t - 1) (level t))
       \<or> (\<exists>item. r' = Some item \<and> t' = InfiniteHashTable ((array t)[ti := Some item]) (count t - 1) (level t))
       \<or> (\<exists>item. r' = Some item \<and> t' = InfiniteHashTable ((array t)[ti := None]) (count t - 1) (level t))"
      by (auto simp: Let_def ti_def split: if_splits option.splits)
    then show ?thesis
    proof (elim disjE conjE exE)
      assume "t' = InfiniteHashTable ((array t)[ti := Some (k, Tab child')]) (count t - 1) (level t)"
      moreover have "good_item (k, Tab child')" using IH kne by (simp add: good_item_def)
      ultimately show ?thesis using root_inv_update[OF assms(1) p] by simp
    next
      fix item assume "r' = Some item" "t' = InfiniteHashTable ((array t)[ti := Some item]) (count t - 1) (level t)"
      then show ?thesis using IH root_inv_update[OF assms(1) p] by simp
    next
      fix item assume "t' = InfiniteHashTable ((array t)[ti := None]) (count t - 1) (level t)"
      then show ?thesis using root_inv_clear[OF assms(1)] by simp
    qed
  qed
qed

lemma iht_delitem_root_inv:
  assumes "root_inv t" "iht_delitem t key = Inr t'"
  shows "root_inv t'"
  using assms delete_item_aux_root_inv[OF assms(1)]
  by (auto simp: iht_delitem_def split: sum.splits)

lemma root_inv_new_table: "root_inv (new_table 0)"
  by (simp add: root_inv_def new_table_def TABLE_SIZE_def)

lemma reachable_root_inv: "iht_reachable t \<Longrightarrow> root_inv t"
  by (induction rule: iht_reachable.induct)
     (auto intro: root_inv_new_table iht_setitem_root_inv iht_delitem_root_inv)


lemma good_last:
  assumes "good c" "last (array c) = Some (k, x)"
  shows "k \<noteq> []"
proof -
  from assms(1) have len: "length (array c) = 27" by (simp add: good_slots TABLE_SIZE_def)
  then have "array c \<noteq> []" by auto
  then have "last (array c) = array c ! 26" using len by (simp add: last_conv_nth)
  with assms len have "good_item (k, x)" by (intro good_nth[OF assms(1), of 26]) auto
  then show ?thesis by (simp add: good_item_def)
qed

lemma sort_keys_good:
  "good c \<longrightarrow> [] \<notin> set acc \<longrightarrow> (\<exists>ks. sort_keys_aux c acc = Inr ks \<and> [] \<notin> set ks)"
  "good c \<longrightarrow> [] \<notin> set acc \<longrightarrow> (\<exists>ks. sort_keys_loop c codes acc = Inr ks \<and> [] \<notin> set ks)"
proof (induction c acc and c codes acc rule: sort_keys_aux_sort_keys_loop.induct)
  case (1 self sorted_list)
  show ?case
  proof (intro impI)
    assume g: "good self" and a: "[] \<notin> set sorted_list"
    from g have ne: "array self \<noteq> []" by (auto simp: good_slots TABLE_SIZE_def)
    let ?acc = "case last (array self) of None \<Rightarrow> sorted_list
                | Some (k, x) \<Rightarrow> if level self \<noteq> 0 then sorted_list @ [k] else sorted_list"
    have "[] \<notin> set ?acc" using a good_last[OF g]
      by (auto split: option.splits)
    with "1.IH"[OF ne] g have "\<exists>ks. sort_keys_loop self [97..<123] ?acc = Inr ks \<and> [] \<notin> set ks"
      by blast
    then show "\<exists>ks. sort_keys_aux self sorted_list = Inr ks \<and> [] \<notin> set ks"
      using ne by (simp add: sort_keys_aux.simps)
  qed
next
  case (2 self sorted_list)
  then show ?case by (simp add: sort_keys_loop.simps)
next
  case (3 self i rest sorted_list)
  show ?case
  proof (intro impI)
    assume g: "good self" and a: "[] \<notin> set sorted_list"
    let ?p = "i mod (TABLE_SIZE - 1)"
    from g have inb: "\<not> length (array self) \<le> ?p" by (simp add: good_slots TABLE_SIZE_def)
    show "\<exists>ks. sort_keys_loop self (i # rest) sorted_list = Inr ks \<and> [] \<notin> set ks"
    proof (cases "array self ! ?p")
      case None
      with "3.IH"(1)[OF refl inb None] g a inb show ?thesis
        by (simp add: sort_keys_loop.simps(2)[of self i rest] Let_def)
    next
      case (Some item)
      obtain k x where item: "item = (k, x)" by (cases item)
      from g inb Some have gi: "good_item item" by (intro good_nth[OF g, of ?p]) auto
      show ?thesis
      proof (cases x)
        case (Val v)
        have "[] \<notin> set (sorted_list @ [k])" using a gi item by (auto simp: good_item_def)
        with "3.IH"(2)[OF refl inb Some item[symmetric] Val] g inb Some item Val show ?thesis
          by (simp add: sort_keys_loop.simps(2)[of self i rest] Let_def)
      next
        case (Tab child)
        from gi item Tab have gc: "good child" by (simp add: good_item_def)
        from "3.IH"(3)[OF refl inb Some item[symmetric] Tab] gc a obtain ks1 where
          ks1: "sort_keys_aux child sorted_list = Inr ks1" "[] \<notin> set ks1" by blast
        from "3.IH"(4)[OF refl inb Some item[symmetric] Tab ks1(1)] g ks1(2) obtain ks where
          "sort_keys_loop self rest ks1 = Inr ks" "[] \<notin> set ks" by blast
        with inb Some item Tab ks1 show ?thesis
          by (simp add: sort_keys_loop.simps(2)[of self i rest] Let_def)
      qed
    qed
  qed
qed

lemma sort_keys_loop_root:
  assumes "root_inv t"
  shows "[] \<notin> set acc \<Longrightarrow> \<exists>ks. sort_keys_loop t codes acc = Inr ks \<and> [] \<notin> set ks"
proof (induction codes arbitrary: acc)
  case Nil
  then show ?case by (simp add: sort_keys_loop.simps)
next
  case (Cons i rest)
  let ?p = "i mod (TABLE_SIZE - 1)"
  have p: "?p < 26" by (simp add: TABLE_SIZE_def)
  with assms have inb: "?p < length (array t)" by (simp add: root_inv_def TABLE_SIZE_def)
  show ?case
  proof (cases "array t ! ?p")
    case None
    with Cons inb show ?thesis
      by (simp add: sort_keys_loop.simps(2)[of t i rest] Let_def)
  next
    case (Some item)
    obtain k x where item: "item = (k, x)" by (cases item)
    from root_slot[OF assms inb Some[unfolded item]] p have gi: "good_item (k, x)" by auto
    show ?thesis
    proof (cases x)
      case (Val v)
      have "[] \<notin> set (acc @ [k])" using Cons.prems gi by (auto simp: good_item_def)
      from Cons.IH[OF this] inb Some item Val show ?thesis
        by (simp add: sort_keys_loop.simps(2)[of t i rest] Let_def)
    next
      case (Tab child)
      from gi Tab have gc: "good child" by (simp add: good_item_def)
      from sort_keys_good(1)[of child acc] gc Cons.prems obtain ks1 where
        ks1: "sort_keys_aux child acc = Inr ks1" "[] \<notin> set ks1" by blast
      from Cons.IH[OF ks1(2)] inb Some item Tab ks1 show ?thesis
        by (simp add: sort_keys_loop.simps(2)[of t i rest] Let_def)
    qed
  qed
qed

lemma sort_keys_root:
  assumes "root_inv t" "[] \<notin> set acc"
  shows "\<exists>ks. sort_keys t acc = Inr ks \<and> [] \<notin> set ks"
proof -
  from assms(1) have ne: "array t \<noteq> []" and l0: "level t = 0"
    by (auto simp: root_inv_def TABLE_SIZE_def)
  have "(case last (array t) of None \<Rightarrow> acc
         | Some (k, x) \<Rightarrow> if level t \<noteq> 0 then acc @ [k] else acc) = acc"
    using l0 by (auto split: option.splits)
  then show ?thesis
    using sort_keys_loop_root[OF assms, of "[97..<123]"] ne
    by (simp add: sort_keys_def sort_keys_aux.simps)
qed

lemma set_empty_key_root:
  assumes "root_inv t"
  shows "\<exists>t'. iht_setitem (Suc d) t [] v = Inr t' \<and> array t' ! 26 = Some ([], Val v)
           \<and> iht_getitem t' [] = Inr v \<and> iht_contains t' [] = Inr True"
proof -
  note inb = hash_root(1)[OF assms, of "[]"]
  have p: "hash t [] = 26" using hash_root(3)[OF assms] .
  from assms have len: "length (array t) = 27" and l0: "level t = 0"
    by (simp_all add: root_inv_def TABLE_SIZE_def)
  from root_slot[OF assms inb] p
  have "array t ! 26 = None \<or> (\<exists>v0. array t ! 26 = Some ([], Val v0))"
    by (cases "array t ! 26") auto
  with inb p obtain m where
    t': "iht_setitem (Suc d) t [] v = Inr (InfiniteHashTable ((array t)[26 := Some ([], Val v)]) m (level t))"
    by (auto simp: iht_setitem_def Let_def)
  let ?t' = "InfiniteHashTable ((array t)[26 := Some ([], Val v)]) m (level t)"
  have h: "hash ?t' [] = 26" by (simp add: hash_def TABLE_SIZE_def)
  have g: "get_item_aux [] ?t' [] 0 = Inr (v, [26])"
    using len by (simp add: get_item_aux.simps[of "[]" ?t'] h Let_def)
  then have "iht_getitem ?t' [] = Inr v" by (simp add: iht_getitem_def)
  moreover then have "iht_contains ?t' [] = Inr True" by (simp add: iht_contains_def)
  moreover have "array ?t' ! 26 = Some ([], Val v)" using len by simp
  ultimately show ?thesis using t' by blast
qed

text \<open>
  C10: in every reachable state of the trie table, setting the empty string stores it as
  a value in the root's terminal slot 26, where \<open>__getitem__\<close> and \<open>__contains__\<close> then
  find it; and \<open>sort_keys\<close> returns a list without the empty string whenever the list
  it appends to has none.
\<close>

theorem empty_key_stored_but_never_sorted:
  assumes "iht_reachable t"
  shows "(\<exists>t'. iht_setitem (Suc d) t [] v = Inr t' \<and> array t' ! 26 = Some ([], Val v)
             \<and> iht_getitem t' [] = Inr v \<and> iht_contains t' [] = Inr True)
         \<and> ([] \<notin> set default_list \<longrightarrow>
              (\<exists>ks. sort_keys t default_list = Inr ks \<and> [] \<notin> set ks))"
  using set_empty_key_root[OF reachable_root_inv[OF assms]]
    sort_keys_root[OF reachable_root_inv[OF assms]]
  by blast


lemma empty_key_table_reachable: "iht_reachable empty_key_table"
proof -
  have "iht_setitem 1 (new_table 0) [] 5 = Inr empty_key_table"
    by code_simp
  then show ?thesis
    by (rule iht_reachable.set[OF iht_reachable.init])
qed

theorem empty_key_witness:
  "iht_reachable empty_key_table \<and> [] \<notin> set ([] :: string list)
   \<and> (\<exists>t'. iht_setitem (Suc 0) empty_key_table [] 7 = Inr t'
          \<and> array t' ! 26 = Some ([], Val 7)
          \<and> iht_getitem t' [] = Inr 7 \<and> iht_contains t' [] = Inr True)
   \<and> (\<exists>ks. sort_keys empty_key_table [] = Inr ks \<and> [] \<notin> set ks)"
  using empty_key_stored_but_never_sorted[OF empty_key_table_reachable, of 0 7 "[]"]
    empty_key_table_reachable
  by simp


section \<open>Properties of the composite-key table\<close>

text \<open>
  The invariant of the data model: every top-level key occupies one outer slot, every
  occupied outer slot holds an inner table with at least one entry, and the reported
  length is the number of occupied outer slots.
\<close>

definition outer_keys :: "'v DoubleKeyTable \<Rightarrow> string list" where
  "outer_keys self = map fst (List.map_filter id (array_dk self))"

definition inner_nonempty :: "'v LinearProbeTable \<Rightarrow> bool" where
  "inner_nonempty sub_table =
     list_ex (\<lambda>slot. case slot of None \<Rightarrow> False | Some item \<Rightarrow> True) (array_lp sub_table)"

definition structural_invariant :: "'v DoubleKeyTable \<Rightarrow> bool" where
  "structural_invariant self =
     (distinct (outer_keys self)
      \<and> list_all (\<lambda>slot. case slot of None \<Rightarrow> True | Some (k, sub_table) \<Rightarrow> inner_nonempty sub_table)
           (array_dk self)
      \<and> count_dk self = int (length (outer_keys self)))"

definition default_table :: "nat DoubleKeyTable" where
  "default_table =
     \<lparr>TABLE_SIZES = DEFAULT_TABLE_SIZES, internal_sizes = DEFAULT_TABLE_SIZES, size_index = 0,
      array_dk = replicate 5 None, count_dk = 0\<rparr>"

definition single_rung_table :: "nat DoubleKeyTable" where
  "single_rung_table =
     \<lparr>TABLE_SIZES = [5], internal_sizes = [5], size_index = 0,
      array_dk = replicate 5 None, count_dk = 0\<rparr>"

text \<open>
  C6 fails on the code. On a table whose ladder is the single capacity 5, the third
  distinct top-level key makes the length 3 exceed 5 / 2, and \<open>_rehash\<close> indexes the
  ladder beyond its end: the insert ends with \<open>IndexError\<close>, after the entry has been
  placed (\<open>setitem_core\<close> returns) and before any \<open>FullError\<close> could be raised.
\<close>

theorem exhausted_ladder_raises_index_error:
  "init_dkt (Some [5]) None = Inr single_rung_table
   \<and> (case dkt_set_all single_rung_table [((''a'', ''x''), 1), ((''b'', ''x''), 2)] of
        Inl e \<Rightarrow> False
      | Inr t \<Rightarrow>
          count_dk t = 2
          \<and> (case setitem_core t (''c'', ''x'') 3 of
                Inl e \<Rightarrow> False
              | Inr t' \<Rightarrow> over_half t' \<and> dkt_getitem t' (''c'', ''x'') = Inr 3)
          \<and> dkt_setitem t (''c'', ''x'') 3 = Inl IndexError)"
  by code_simp

text \<open>
  C7 fails on the code. The keys "a" and "f" both hash to outer slot 2 of the initial
  table, so "f" is placed in slot 3. Deleting the only entry of "a" clears slot 2; the
  loop that follows reinserts the entry of "f" through \<open>__setitem__\<close>, which finds slot 2
  empty and creates a second inner table there, and nothing clears slot 3. Afterwards "f"
  occupies slots 2 and 3, the table in slot 3 is empty, and the length is 2 with one
  top-level key present. The invariant held before the deletion.
\<close>

theorem delete_leaves_stale_outer_slot:
  "init_dkt None None = Inr default_table
   \<and> (case dkt_set_all default_table [((''a'', ''x''), 1), ((''f'', ''x''), 2)] of
        Inl e \<Rightarrow> False
      | Inr t \<Rightarrow>
          structural_invariant t
          \<and> map (map_option fst) (array_dk t) = [None, None, Some ''a'', Some ''f'', None]
          \<and> (case dkt_delitem 2 t (''a'', ''x'') of
                Inl e \<Rightarrow> False
              | Inr t' \<Rightarrow>
                  map (map_option fst) (array_dk t') = [None, None, Some ''f'', Some ''f'', None]
                  \<and> map (map_option (count_lp \<circ> snd)) (array_dk t')
                      = [None, None, Some 1, Some 0, None]
                  \<and> count_dk t' = 2
                  \<and> \<not> distinct (outer_keys t')
                  \<and> \<not> structural_invariant t'))"
  by code_simp

end
